theory Spec2Isabelle
  imports Main "HOL-Library.Word"
begin

section \<open>Data model of the load balancer (LB35.go)\<close>

text \<open>
  A parsed target (\<open>*url.URL\<close>): only the two fields the program reads.
\<close>

record url =
  Scheme :: string
  Host :: string

text \<open>
  \<open>httputil.NewSingleHostReverseProxy(u)\<close> with its Director and ErrorHandler, both of
  which depend on \<open>u\<close> only. The proxy itself is an external collaborator.
\<close>

datatype reverse_proxy = NewSingleHostReverseProxy url


record Backend =
  URL :: url
  Alive :: bool
  ReverseProxy :: reverse_proxy

text \<open>
  What the program prints with \<open>fmt.Printf\<close>; the format strings carry exactly these fields.
\<close>

datatype log_line =
    Parse_failed string
  | Revived string
  | Died string
  | Routed "64 word" string

text \<open>
  Shared memory and how the code touches it. \<open>nodes[i].Alive\<close> is a \<open>bool\<close> field read
  and assigned directly; \<open>requestCounter\<close> is only touched through
  \<open>atomic.AddUint64\<close>.
\<close>

datatype location = Alive_of nat | RequestCounter

datatype sync = Plain | Atomic

datatype access = Load | Store | AddFetch

datatype event = Mem sync access location | Printf log_line

text \<open>
  The state shared by the health-check goroutine and the request handlers: the slice
  \<open>nodes\<close> (element \<open>i\<close> is the pointer \<open>nodes[i]\<close>; every element is allocated
  separately in \<open>main\<close>, so there is no aliasing), the counter, and the effects so far.
\<close>

record lb_state =
  nodes :: "Backend list"
  requestCounter :: "64 word"
  trace :: "event list"

text \<open>
  The run-time panics of the integer remainder and of slice indexing, and the
  \<open>panic(err)\<close> of \<open>main\<close>.
\<close>

datatype panic = Divide_by_zero | Index_out_of_range | Load_error string

text \<open>
  What the handler answers: \<open>c.AbortWithStatus(code)\<close>, \<open>c.String(code, ...)\<close> with its
  fixed text, or whatever the reverse proxy of \<open>nodes[t]\<close> relays
  (\<open>targetNode.ReverseProxy.ServeHTTP\<close>).
\<close>

datatype response = AbortWithStatus nat | String_status nat | ServeHTTP nat

section \<open>The probe\<close>

datatype conn = Conn nat

text \<open>
  \<open>net.DialTimeout(network, address, timeout)\<close>: the network is the environment,
  so the dialer is a parameter. \<open>Inl\<close> is a non-nil \<open>err\<close>.
\<close>

type_synonym dialer = "string \<Rightarrow> string \<Rightarrow> int \<Rightarrow> string + conn"

definition Second :: int where
  "Second = 1000000000"

text \<open>On success the connection is closed at once and the result of closing is dropped.\<close>

definition isAlive :: "dialer \<Rightarrow> url \<Rightarrow> bool" where
  "isAlive dial u =
     (case dial ''tcp'' (Host u) (2 * Second) of
        Inl err \<Rightarrow> False
      | Inr conn \<Rightarrow> True)"

section \<open>Pool construction in main\<close>



section \<open>The health-check goroutine\<close>

text \<open>The body of the inner loop for \<open>node = nodes[i]\<close>.\<close>

definition check_node :: "dialer \<Rightarrow> nat \<Rightarrow> Backend \<Rightarrow> event list \<Rightarrow> Backend \<times> event list" where
  "check_node dial i node tr =
     (let alive = isAlive dial (URL node);
          tr1 = tr @ [Mem Plain Load (Alive_of i)]
      in if Alive node \<noteq> alive then
           (node\<lparr>Alive := alive\<rparr>,
            tr1 @ [Mem Plain Store (Alive_of i),
                   Printf (if alive then Revived (Host (URL node)) else Died (Host (URL node)))])
         else (node, tr1))"

text \<open>\<open>for _, node := range nodes\<close>, from index \<open>i\<close> on.\<close>

fun sweep_from :: "dialer \<Rightarrow> nat \<Rightarrow> Backend list \<Rightarrow> event list \<Rightarrow> Backend list \<times> event list" where
  "sweep_from dial i [] tr = ([], tr)"
| "sweep_from dial i (node # rest) tr =
     (let (node', tr1) = check_node dial i node tr;
          (rest', tr2) = sweep_from dial (Suc i) rest tr1
      in (node' # rest', tr2))"

text \<open>
  One pass of the outer loop (the sleep after it has no effect on the state). \<open>dial\<close> is
  the network as it answers during this pass.
\<close>

definition sweep :: "dialer \<Rightarrow> lb_state \<Rightarrow> lb_state" where
  "sweep dial s =
     (let (ns, tr) = sweep_from dial 0 (nodes s) (trace s)
      in s\<lparr>nodes := ns, trace := tr\<rparr>)"

text \<open>
  The outer \<open>for { ... }\<close> never exits; \<open>monitor dials k n\<close> is \<open>n\<close> passes of it,
  numbered from \<open>k\<close>, the network answering as \<open>dials k\<close> during pass \<open>k\<close>.
\<close>

fun monitor :: "(nat \<Rightarrow> dialer) \<Rightarrow> nat \<Rightarrow> nat \<Rightarrow> lb_state \<Rightarrow> lb_state" where
  "monitor dials k 0 s = s"
| "monitor dials k (Suc n) s = monitor dials (Suc k) n (sweep (dials k) s)"

section \<open>The request handler\<close>

text \<open>
  The selection loop \<open>for i := 0; i < len(nodes); i++\<close>, from \<open>i\<close> on. The result is
  \<open>targetNode\<close>: \<open>None\<close> for \<open>nil\<close>, \<open>Some k\<close> for the pointer \<open>nodes[k]\<close>.
  \<open>uint64(len(nodes))\<close> is exact (a length is a non-negative \<open>int\<close>), so the remainder
  is taken on the unsigned value of the ticket; a zero divisor and an index outside the
  slice panic in Go.
\<close>

function select_loop :: "nat \<Rightarrow> lb_state \<Rightarrow> panic + (nat option \<times> lb_state)" where
  "select_loop i s =
     (if i < length (nodes s) then
        (let current = requestCounter s + 1;
             s1 = s\<lparr>requestCounter := current,
                    trace := trace s @ [Mem Atomic AddFetch RequestCounter]\<rparr>
         in if length (nodes s) = 0 then Inl Divide_by_zero
            else
              (let index = unat current mod length (nodes s)
               in if \<not> index < length (nodes s) then Inl Index_out_of_range
                  else
                    (let candidate = nodes s ! index;
                         s2 = s1\<lparr>trace := trace s1 @ [Mem Plain Load (Alive_of index)]\<rparr>
                     in if Alive candidate = True then
                          Inr (Some index,
                               s2\<lparr>trace := trace s2 @
                                     [Printf (Routed current (Host (URL candidate)))]\<rparr>)
                        else select_loop (Suc i) s2)))
      else Inr (None, s))"
  by pat_completeness auto
termination
  by (relation "measure (\<lambda>(i, s). length (nodes s) - i)") auto

text \<open>The handler registered with \<open>r.Any("/*path", ...)\<close>, for a request with this path.\<close>

definition handler :: "lb_state \<Rightarrow> string \<Rightarrow> panic + (response \<times> lb_state)" where
  "handler s path =
     (if path = ''/favicon.ico'' then Inr (AbortWithStatus 204, s)
      else
        (case select_loop 0 s of
           Inl p \<Rightarrow> Inl p
         | Inr (targetNode, s') \<Rightarrow>
             (case targetNode of
                None \<Rightarrow> Inr (String_status 502, s')
              | Some t \<Rightarrow> Inr (ServeHTTP t, s'))))"

text \<open>Requests handled one after the other, in this order.\<close>

fun serve :: "lb_state \<Rightarrow> string list \<Rightarrow> panic + (response list \<times> lb_state)" where
  "serve s [] = Inr ([], s)"
| "serve s (path # paths) =
     (case handler s path of
        Inl p \<Rightarrow> Inl p
      | Inr (r, s1) \<Rightarrow>
          (case serve s1 paths of
             Inl p \<Rightarrow> Inl p
           | Inr (rs, s2) \<Rightarrow> Inr (r # rs, s2)))"

section \<open>Vocabulary of the statements\<close>

text \<open>
  The memory events of \<open>k\<close> passes through the body of the selection loop on a pool of
  \<open>N\<close> backends, starting from counter value \<open>c\<close>: pass \<open>j\<close> (counted from 0) draws
  the ticket \<open>c + (j + 1)\<close> and reads the flag of the backend at \<open>ticket mod N\<close>.
\<close>

definition attempts :: "nat \<Rightarrow> 64 word \<Rightarrow> nat \<Rightarrow> event list" where
  "attempts N c k =
     concat (map (\<lambda>j. [Mem Atomic AddFetch RequestCounter,
                        Mem Plain Load (Alive_of (unat (c + of_nat (Suc j)) mod N))]) [0..<k])"

text \<open>A backend as \<open>main\<close> builds it for a host, with a given liveness.\<close>

definition backend :: "string \<Rightarrow> bool \<Rightarrow> Backend" where
  "backend h a =
     \<lparr>URL = \<lparr>Scheme = ''http'', Host = h\<rparr>, Alive = a,
      ReverseProxy = NewSingleHostReverseProxy \<lparr>Scheme = ''http'', Host = h\<rparr>\<rparr>"

text \<open>
  An event that changes a backend: a store to, or a read-modify-write of, one of the
  \<open>Alive\<close> flags. (\<open>URL\<close> and \<open>ReverseProxy\<close> are no memory locations of the model: no
  statement of the program assigns them after \<open>main\<close> has built the node.)
\<close>

fun modifies_backend :: "event \<Rightarrow> bool" where
  "modifies_backend (Mem m Store (Alive_of i)) = True"
| "modifies_backend (Mem m AddFetch (Alive_of i)) = True"
| "modifies_backend _ = False"

text \<open>
  Strict rotation over \<open>N\<close> backends: every response forwards to a backend, and each one
  to the backend after that of the response before it, modulo \<open>N\<close>.
\<close>

fun follows :: "nat \<Rightarrow> response \<Rightarrow> response \<Rightarrow> bool" where
  "follows N (ServeHTTP a) (ServeHTTP b) = (b = Suc a mod N)"
| "follows N _ _ = False"

definition strict_rotation :: "nat \<Rightarrow> response list \<Rightarrow> bool" where
  "strict_rotation N rs = list_all (\<lambda>(r, r'). follows N r r') (zip rs (tl rs))"

text \<open>Reading a trace: the locations stored to, the lines printed, the number of flag reads.\<close>

fun stores :: "event list \<Rightarrow> location list" where
  "stores [] = []"
| "stores (Mem m Store l # es) = l # stores es"
| "stores (e # es) = stores es"

fun printed :: "event list \<Rightarrow> log_line list" where
  "printed [] = []"
| "printed (Printf l # es) = l # printed es"
| "printed (e # es) = printed es"

fun flag_loads :: "event list \<Rightarrow> nat" where
  "flag_loads [] = 0"
| "flag_loads (Mem m Load (Alive_of i) # es) = Suc (flag_loads es)"
| "flag_loads (e # es) = flag_loads es"

text \<open>
  The liveness-transition record for a backend whose probe result differs from its flag,
  and the backends of a list (numbered from \<open>i\<close>) for which it does differ.
\<close>

definition transition :: "dialer \<Rightarrow> Backend \<Rightarrow> log_line" where
  "transition dial b =
     (if isAlive dial (URL b) then Revived (Host (URL b)) else Died (Host (URL b)))"

definition flipped :: "dialer \<Rightarrow> Backend list \<Rightarrow> nat \<Rightarrow> (nat \<times> Backend) list" where
  "flipped dial ns i =
     filter (\<lambda>(j, b). isAlive dial (URL b) \<noteq> Alive b) (enumerate i ns)"

text \<open>
  Two memory events issued by different goroutines with nothing ordering them are a data
  race in the Go memory model when they touch the same location, one of them at least
  writes, and they are not both atomic.
\<close>

fun racing :: "event \<Rightarrow> event \<Rightarrow> bool" where
  "racing (Mem m1 a1 l1) (Mem m2 a2 l2) =
     (l1 = l2 \<and> \<not> (a1 = Load \<and> a2 = Load) \<and> \<not> (m1 = Atomic \<and> m2 = Atomic))"
| "racing _ _ = False"

section \<open>The selection loop, attempt by attempt\<close>

lemma attempts_0: "attempts N c 0 = []"
  by (simp add: attempts_def)

lemma attempts_Suc_front:
  "attempts N c (Suc k) =
     [Mem Atomic AddFetch RequestCounter, Mem Plain Load (Alive_of (unat (c + 1) mod N))]
     @ attempts N (c + 1) k"
proof -
  have "[0..<Suc k] = 0 # map Suc [0..<k]"
    by (simp add: upt_conv_Cons map_Suc_upt del: upt_Suc)
  then show ?thesis
    by (simp add: attempts_def comp_def ac_simps del: upt_Suc)
qed

lemma count_attempts:
  "count_list (attempts N c k) (Mem Atomic AddFetch RequestCounter) = k"
  by (induction k arbitrary: c) (simp_all add: attempts_0 attempts_Suc_front)

lemma select_loop_end:
  "\<not> i < length (nodes s) \<Longrightarrow> select_loop i s = Inr (None, s)"
  by (subst select_loop.simps) simp

lemma select_loop_hit:
  assumes "i < length (nodes s)"
    and "Alive (nodes s ! (unat (requestCounter s + 1) mod length (nodes s)))"
  shows "select_loop i s =
     Inr (Some (unat (requestCounter s + 1) mod length (nodes s)),
          s\<lparr>requestCounter := requestCounter s + 1,
            trace := trace s @ attempts (length (nodes s)) (requestCounter s) 1 @
              [Printf (Routed (requestCounter s + 1)
                 (Host (URL (nodes s ! (unat (requestCounter s + 1) mod length (nodes s))))))]\<rparr>)"
  using assms by (subst select_loop.simps) (auto simp: Let_def attempts_def)

lemma select_loop_miss:
  assumes "i < length (nodes s)"
    and "\<not> Alive (nodes s ! (unat (requestCounter s + 1) mod length (nodes s)))"
  shows "select_loop i s =
     select_loop (Suc i)
       (s\<lparr>requestCounter := requestCounter s + 1,
          trace := trace s @ attempts (length (nodes s)) (requestCounter s) 1\<rparr>)"
  using assms by (subst select_loop.simps) (auto simp: Let_def attempts_def)

lemma select_loop_dead_run:
  assumes "i + k \<le> length (nodes s)"
    and "\<forall>j<k. \<not> Alive (nodes s ! (unat (requestCounter s + of_nat (Suc j)) mod length (nodes s)))"
  shows "select_loop i s =
     select_loop (i + k)
       (s\<lparr>requestCounter := requestCounter s + of_nat k,
          trace := trace s @ attempts (length (nodes s)) (requestCounter s) k\<rparr>)"
  using assms
proof (induction k arbitrary: i s)
  case 0
  then show ?case by (simp add: attempts_0)
next
  case (Suc k)
  let ?s1 = "s\<lparr>requestCounter := requestCounter s + 1,
          trace := trace s @ attempts (length (nodes s)) (requestCounter s) 1\<rparr>"
  have lt: "i < length (nodes s)" using Suc.prems(1) by simp
  have dead0: "\<not> Alive (nodes s ! (unat (requestCounter s + 1) mod length (nodes s)))"
    using Suc.prems(2) by (auto dest: spec [of _ 0])
  have step: "select_loop i s = select_loop (Suc i) ?s1"
    using select_loop_miss [OF lt dead0] .
  have le: "Suc i + k \<le> length (nodes ?s1)" using Suc.prems(1) by simp
  have dead: "\<forall>j<k. \<not> Alive (nodes ?s1 ! (unat (requestCounter ?s1 + of_nat (Suc j)) mod length (nodes ?s1)))"
  proof (intro allI impI)
    fix j assume "j < k"
    then have "Suc j < Suc k" by simp
    then have "\<not> Alive (nodes s ! (unat (requestCounter s + of_nat (Suc (Suc j))) mod length (nodes s)))"
      using Suc.prems(2) by blast
    then show "\<not> Alive (nodes ?s1 ! (unat (requestCounter ?s1 + of_nat (Suc j)) mod length (nodes ?s1)))"
      by (simp add: ac_simps)
  qed
  have "select_loop (Suc i) ?s1 =
     select_loop (Suc i + k)
       (?s1\<lparr>requestCounter := requestCounter ?s1 + of_nat k,
          trace := trace ?s1 @ attempts (length (nodes ?s1)) (requestCounter ?s1) k\<rparr>)"
    using Suc.IH [OF le dead] .
  then show ?case
    using step by (simp add: attempts_Suc_front [of _ _ k] attempts_Suc_front [of _ _ 0] attempts_0 ac_simps)
qed

lemma attempts_Suc_back:
  "attempts N c (Suc k) =
     attempts N c k @
     [Mem Atomic AddFetch RequestCounter,
      Mem Plain Load (Alive_of (unat (c + of_nat (Suc k)) mod N))]"
  by (simp add: attempts_def)

lemma select_loop_first_alive:
  assumes "i + k < length (nodes s)"
    and "\<forall>j<k. \<not> Alive (nodes s ! (unat (requestCounter s + of_nat (Suc j)) mod length (nodes s)))"
    and "Alive (nodes s ! (unat (requestCounter s + of_nat (Suc k)) mod length (nodes s)))"
  shows "select_loop i s =
     Inr (Some (unat (requestCounter s + of_nat (Suc k)) mod length (nodes s)),
          s\<lparr>requestCounter := requestCounter s + of_nat (Suc k),
            trace := trace s @ attempts (length (nodes s)) (requestCounter s) (Suc k) @
              [Printf (Routed (requestCounter s + of_nat (Suc k))
                 (Host (URL (nodes s !
                    (unat (requestCounter s + of_nat (Suc k)) mod length (nodes s))))))]\<rparr>)"
proof -
  let ?sk = "s\<lparr>requestCounter := requestCounter s + of_nat k,
          trace := trace s @ attempts (length (nodes s)) (requestCounter s) k\<rparr>"
  have le: "i + k \<le> length (nodes s)" using assms(1) by simp
  have run: "select_loop i s = select_loop (i + k) ?sk"
    using select_loop_dead_run [OF le assms(2)] .
  have lt: "i + k < length (nodes ?sk)" using assms(1) by simp
  have alive: "Alive (nodes ?sk ! (unat (requestCounter ?sk + 1) mod length (nodes ?sk)))"
    using assms(3) by (simp add: ac_simps)
  show ?thesis
    unfolding run select_loop_hit [OF lt alive]
    by (simp add: attempts_Suc_back attempts_def ac_simps)
qed

lemma select_loop_all_dead:
  assumes "i \<le> length (nodes s)"
    and "\<forall>j<length (nodes s) - i.
           \<not> Alive (nodes s ! (unat (requestCounter s + of_nat (Suc j)) mod length (nodes s)))"
  shows "select_loop i s =
     Inr (None,
          s\<lparr>requestCounter := requestCounter s + of_nat (length (nodes s) - i),
            trace := trace s @ attempts (length (nodes s)) (requestCounter s)
                                 (length (nodes s) - i)\<rparr>)"
proof -
  have le: "i + (length (nodes s) - i) \<le> length (nodes s)" using assms(1) by simp
  show ?thesis
    unfolding select_loop_dead_run [OF le assms(2)]
    using assms(1) by (simp add: select_loop_end)
qed

lemma first_or_none:
  fixes P :: "nat \<Rightarrow> bool"
  shows "(\<exists>k<n. (\<forall>j<k. \<not> P j) \<and> P k) \<or> (\<forall>j<n. \<not> P j)"
proof (cases "\<exists>j<n. P j")
  case True
  then obtain j where j: "j < n" "P j" by blast
  define k where "k = (LEAST j. P j)"
  have pk: "P k" unfolding k_def using j(2) by (rule LeastI)
  have "k \<le> j" unfolding k_def using j(2) by (rule Least_le)
  then have kn: "k < n" using j(1) by simp
  have "\<forall>j<k. \<not> P j" unfolding k_def using not_less_Least by blast
  then have "k < n \<and> (\<forall>j<k. \<not> P j) \<and> P k" using pk kn by simp
  then show ?thesis by blast
next
  case False
  then show ?thesis by blast
qed

lemma handler_first_alive:
  assumes "path \<noteq> ''/favicon.ico''"
    and "k < length (nodes s)"
    and "\<forall>j<k. \<not> Alive (nodes s ! (unat (requestCounter s + of_nat (Suc j)) mod length (nodes s)))"
    and "Alive (nodes s ! (unat (requestCounter s + of_nat (Suc k)) mod length (nodes s)))"
  shows "handler s path =
     Inr (ServeHTTP (unat (requestCounter s + of_nat (Suc k)) mod length (nodes s)),
          s\<lparr>requestCounter := requestCounter s + of_nat (Suc k),
            trace := trace s @ attempts (length (nodes s)) (requestCounter s) (Suc k) @
              [Printf (Routed (requestCounter s + of_nat (Suc k))
                 (Host (URL (nodes s !
                    (unat (requestCounter s + of_nat (Suc k)) mod length (nodes s))))))]\<rparr>)"
proof -
  have lt: "0 + k < length (nodes s)" using assms(2) by simp
  show ?thesis
    unfolding handler_def select_loop_first_alive [OF lt assms(3) assms(4)]
    using assms(1) by simp
qed

lemma handler_all_dead:
  assumes "path \<noteq> ''/favicon.ico''"
    and "\<forall>j<length (nodes s).
           \<not> Alive (nodes s ! (unat (requestCounter s + of_nat (Suc j)) mod length (nodes s)))"
  shows "handler s path =
     Inr (String_status 502,
          s\<lparr>requestCounter := requestCounter s + of_nat (length (nodes s)),
            trace := trace s @ attempts (length (nodes s)) (requestCounter s)
                                 (length (nodes s))\<rparr>)"
proof -
  have le: "0 \<le> length (nodes s)" by simp
  have dead: "\<forall>j<length (nodes s) - 0.
           \<not> Alive (nodes s ! (unat (requestCounter s + of_nat (Suc j)) mod length (nodes s)))"
    using assms(2) by simp
  show ?thesis
    unfolding handler_def select_loop_all_dead [OF le dead]
    using assms(1) by simp
qed

lemma attempts_modify_nothing: "list_all (\<lambda>e. \<not> modifies_backend e) (attempts N c k)"
  by (simp add: attempts_def list_all_iff)

lemma handler_cases:
  assumes "path \<noteq> ''/favicon.ico''"
  shows "(\<exists>k<length (nodes s).
            handler s path =
              Inr (ServeHTTP (unat (requestCounter s + of_nat (Suc k)) mod length (nodes s)),
                   s\<lparr>requestCounter := requestCounter s + of_nat (Suc k),
                     trace := trace s @ attempts (length (nodes s)) (requestCounter s) (Suc k) @
                       [Printf (Routed (requestCounter s + of_nat (Suc k))
                          (Host (URL (nodes s !
                             (unat (requestCounter s + of_nat (Suc k)) mod length (nodes s))))))]\<rparr>)
            \<and> Alive (nodes s ! (unat (requestCounter s + of_nat (Suc k)) mod length (nodes s))))
         \<or> (handler s path =
              Inr (String_status 502,
                   s\<lparr>requestCounter := requestCounter s + of_nat (length (nodes s)),
                     trace := trace s @ attempts (length (nodes s)) (requestCounter s)
                                          (length (nodes s))\<rparr>)
            \<and> (\<forall>j<length (nodes s).
                  \<not> Alive (nodes s ! (unat (requestCounter s + of_nat (Suc j)) mod length (nodes s)))))"
  using first_or_none [of "length (nodes s)"
      "\<lambda>j. Alive (nodes s ! (unat (requestCounter s + of_nat (Suc j)) mod length (nodes s)))"]
proof (elim disjE exE conjE)
  fix k
  assume k: "k < length (nodes s)"
    and dead: "\<forall>j<k. \<not> Alive (nodes s ! (unat (requestCounter s + of_nat (Suc j)) mod length (nodes s)))"
    and alive: "Alive (nodes s ! (unat (requestCounter s + of_nat (Suc k)) mod length (nodes s)))"
  show ?thesis
    using handler_first_alive [OF assms k dead alive] k alive by blast
next
  assume dead: "\<forall>j<length (nodes s).
      \<not> Alive (nodes s ! (unat (requestCounter s + of_nat (Suc j)) mod length (nodes s)))"
  show ?thesis
    using handler_all_dead [OF assms dead] dead by blast
qed

lemma unat_ticket:
  assumes "unat (c :: 64 word) + n < 2 ^ 64"
  shows "unat (c + of_nat n) = unat c + n"
proof -
  have n: "n < 2 ^ 64" using assms by simp
  have "unat (of_nat n :: 64 word) = n"
    using n by (simp add: unat_of_nat)
  then show ?thesis
    using assms by (simp add: unat_word_ariths)
qed

lemma ticket_index:
  assumes "unat (c :: 64 word) + n < 2 ^ 64 \<or> N dvd 2 ^ 64"
  shows "unat (c + of_nat n) mod N = (unat c + n) mod N"
  using assms
proof
  assume "unat c + n < 2 ^ 64"
  then show ?thesis by (simp only: unat_ticket)
next
  assume dvd: "N dvd 2 ^ 64"
  have "unat (c + of_nat n) = (unat c + n mod 2 ^ 64) mod 2 ^ 64"
    by (simp add: unat_word_ariths unat_of_nat)
  also have "\<dots> = (unat c + n) mod 2 ^ 64"
    by (rule mod_add_right_eq)
  finally have "unat (c + of_nat n) mod N = ((unat c + n) mod 2 ^ 64) mod N"
    by simp
  also have "\<dots> = (unat c + n) mod N"
    using dvd by (rule mod_mod_cancel)
  finally show ?thesis .
qed


lemma all_alive_handler:
  assumes "nodes s \<noteq> []"
    and "\<forall>b\<in>set (nodes s). Alive b"
    and "path \<noteq> ''/favicon.ico''"
  shows "handler s path =
     Inr (ServeHTTP (unat (requestCounter s + 1) mod length (nodes s)),
          s\<lparr>requestCounter := requestCounter s + 1,
            trace := trace s @ attempts (length (nodes s)) (requestCounter s) 1 @
              [Printf (Routed (requestCounter s + 1)
                 (Host (URL (nodes s ! (unat (requestCounter s + 1) mod length (nodes s))))))]\<rparr>)"
proof -
  have N: "0 < length (nodes s)" using assms(1) by simp
  have "unat (requestCounter s + 1) mod length (nodes s) < length (nodes s)"
    using N by (rule mod_less_divisor)
  then have alive: "Alive (nodes s ! (unat (requestCounter s + of_nat (Suc 0)) mod length (nodes s)))"
    using assms(2) by simp
  have dead: "\<forall>j<0. \<not> Alive (nodes s ! (unat (requestCounter s + of_nat (Suc j)) mod length (nodes s)))"
    by simp
  show ?thesis
    using handler_first_alive [OF assms(3) N dead alive] by simp
qed

lemma serve_all_alive:
  assumes "nodes s \<noteq> []"
    and "\<forall>b\<in>set (nodes s). Alive b"
    and "\<forall>p\<in>set paths. p \<noteq> ''/favicon.ico''"
  shows "\<exists>s'. serve s paths =
           Inr (map (\<lambda>j. ServeHTTP (unat (requestCounter s + of_nat (Suc j)) mod length (nodes s)))
                    [0..<length paths], s')
         \<and> nodes s' = nodes s
         \<and> requestCounter s' = requestCounter s + of_nat (length paths)"
  using assms
proof (induction paths arbitrary: s)
  case Nil
  then show ?case by simp
next
  case (Cons p ps)
  let ?s1 = "s\<lparr>requestCounter := requestCounter s + 1,
            trace := trace s @ attempts (length (nodes s)) (requestCounter s) 1 @
              [Printf (Routed (requestCounter s + 1)
                 (Host (URL (nodes s ! (unat (requestCounter s + 1) mod length (nodes s))))))]\<rparr>"
  have p: "p \<noteq> ''/favicon.ico''" using Cons.prems(3) by simp
  have h: "handler s p = Inr (ServeHTTP (unat (requestCounter s + 1) mod length (nodes s)), ?s1)"
    using all_alive_handler [OF Cons.prems(1) Cons.prems(2) p] .
  have a1: "nodes ?s1 \<noteq> []" using Cons.prems(1) by simp
  have a2: "\<forall>b\<in>set (nodes ?s1). Alive b" using Cons.prems(2) by simp
  have a3: "\<forall>p\<in>set ps. p \<noteq> ''/favicon.ico''" using Cons.prems(3) by simp
  obtain s' where s': "serve ?s1 ps =
           Inr (map (\<lambda>j. ServeHTTP (unat (requestCounter ?s1 + of_nat (Suc j)) mod length (nodes ?s1)))
                    [0..<length ps], s')"
      "nodes s' = nodes ?s1"
      "requestCounter s' = requestCounter ?s1 + of_nat (length ps)"
    using Cons.IH [OF a1 a2 a3] by blast
  have upt: "[0..<length (p # ps)] = 0 # map Suc [0..<length ps]"
    by (simp add: upt_conv_Cons map_Suc_upt del: upt_Suc)
  have "serve s (p # ps) =
           Inr (map (\<lambda>j. ServeHTTP (unat (requestCounter s + of_nat (Suc j)) mod length (nodes s)))
                    [0..<length (p # ps)], s')"
    unfolding upt using h s'(1) by (simp add: comp_def ac_simps)
  moreover have "nodes s' = nodes s" using s'(2) by simp
  moreover have "requestCounter s' = requestCounter s + of_nat (length (p # ps))"
    using s'(3) by (simp add: ac_simps)
  ultimately show ?case by blast
qed

lemma rotation_of_consecutive:
  assumes "0 < N"
  shows "strict_rotation N (map (\<lambda>j. ServeHTTP ((x + Suc j) mod N)) [0..<n])"
  unfolding strict_rotation_def list_all_length
proof (intro allI impI)
  fix i
  let ?rs = "map (\<lambda>j. ServeHTTP ((x + Suc j) mod N)) [0..<n]"
  assume "i < length (zip ?rs (tl ?rs))"
  then have i: "Suc i < n" by simp
  then have "zip ?rs (tl ?rs) ! i =
      (ServeHTTP ((x + Suc i) mod N), ServeHTTP ((x + Suc (Suc i)) mod N))"
    by (simp add: nth_tl)
  then show "case zip ?rs (tl ?rs) ! i of (r, r') \<Rightarrow> follows N r r'"
    by (simp add: mod_Suc_eq)
qed

section \<open>The health-check pass and the construction of the pool\<close>

lemma stores_append: "stores (xs @ ys) = stores xs @ stores ys"
  by (induction xs rule: stores.induct) simp_all

lemma printed_append: "printed (xs @ ys) = printed xs @ printed ys"
  by (induction xs rule: printed.induct) simp_all

lemma flag_loads_append: "flag_loads (xs @ ys) = flag_loads xs + flag_loads ys"
  by (induction xs rule: flag_loads.induct) simp_all

lemma check_node_char:
  "\<exists>new. check_node dial i node tr = (node\<lparr>Alive := isAlive dial (URL node)\<rparr>, tr @ new)
     \<and> stores new = map (\<lambda>(j, b). Alive_of j) (flipped dial [node] i)
     \<and> printed new = map (\<lambda>(j, b). transition dial b) (flipped dial [node] i)
     \<and> flag_loads new = 1"
proof (cases "Alive node = isAlive dial (URL node)")
  case True
  then have "check_node dial i node tr
      = (node\<lparr>Alive := isAlive dial (URL node)\<rparr>, tr @ [Mem Plain Load (Alive_of i)])"
    by (simp add: check_node_def Let_def)
  moreover have "flipped dial [node] i = []"
    using True by (simp add: flipped_def)
  ultimately show ?thesis by simp
next
  case False
  then have "check_node dial i node tr
      = (node\<lparr>Alive := isAlive dial (URL node)\<rparr>,
         tr @ [Mem Plain Load (Alive_of i), Mem Plain Store (Alive_of i),
               Printf (transition dial node)])"
    by (simp add: check_node_def Let_def transition_def)
  moreover have "flipped dial [node] i = [(i, node)]"
    using False by (auto simp: flipped_def)
  ultimately show ?thesis by simp
qed

lemma flipped_Cons:
  "flipped dial (node # rest) i = flipped dial [node] i @ flipped dial rest (Suc i)"
  by (simp add: flipped_def)

lemma sweep_from_char:
  "\<exists>new. sweep_from dial i ns tr = (map (\<lambda>b. b\<lparr>Alive := isAlive dial (URL b)\<rparr>) ns, tr @ new)
     \<and> stores new = map (\<lambda>(j, b). Alive_of j) (flipped dial ns i)
     \<and> printed new = map (\<lambda>(j, b). transition dial b) (flipped dial ns i)
     \<and> flag_loads new = length ns"
proof (induction ns arbitrary: i tr)
  case Nil
  then show ?case by (simp add: flipped_def)
next
  case (Cons node rest)
  obtain e1 where e1: "check_node dial i node tr = (node\<lparr>Alive := isAlive dial (URL node)\<rparr>, tr @ e1)"
      "stores e1 = map (\<lambda>(j, b). Alive_of j) (flipped dial [node] i)"
      "printed e1 = map (\<lambda>(j, b). transition dial b) (flipped dial [node] i)"
      "flag_loads e1 = 1"
    using check_node_char [of dial i node tr] by blast
  obtain e2 where e2: "sweep_from dial (Suc i) rest (tr @ e1)
        = (map (\<lambda>b. b\<lparr>Alive := isAlive dial (URL b)\<rparr>) rest, (tr @ e1) @ e2)"
      "stores e2 = map (\<lambda>(j, b). Alive_of j) (flipped dial rest (Suc i))"
      "printed e2 = map (\<lambda>(j, b). transition dial b) (flipped dial rest (Suc i))"
      "flag_loads e2 = length rest"
    using Cons.IH [of "Suc i" "tr @ e1"] by blast
  have "sweep_from dial i (node # rest) tr
      = (map (\<lambda>b. b\<lparr>Alive := isAlive dial (URL b)\<rparr>) (node # rest), tr @ (e1 @ e2))"
    using e1(1) e2(1) by simp
  moreover have "stores (e1 @ e2) = map (\<lambda>(j, b). Alive_of j) (flipped dial (node # rest) i)"
    using e1(2) e2(2) by (simp add: stores_append flipped_Cons [of dial node rest])
  moreover have "printed (e1 @ e2) = map (\<lambda>(j, b). transition dial b) (flipped dial (node # rest) i)"
    using e1(3) e2(3) by (simp add: printed_append flipped_Cons [of dial node rest])
  moreover have "flag_loads (e1 @ e2) = length (node # rest)"
    using e1(4) e2(4) by (simp add: flag_loads_append)
  ultimately show ?case by blast
qed

lemma sweep_char:
  "\<exists>new. sweep dial s =
       s\<lparr>nodes := map (\<lambda>b. b\<lparr>Alive := isAlive dial (URL b)\<rparr>) (nodes s),
         trace := trace s @ new\<rparr>
     \<and> stores new = map (\<lambda>(j, b). Alive_of j) (flipped dial (nodes s) 0)
     \<and> printed new = map (\<lambda>(j, b). transition dial b) (flipped dial (nodes s) 0)
     \<and> flag_loads new = length (nodes s)"
proof -
  obtain new where new: "sweep_from dial 0 (nodes s) (trace s)
        = (map (\<lambda>b. b\<lparr>Alive := isAlive dial (URL b)\<rparr>) (nodes s), trace s @ new)"
      "stores new = map (\<lambda>(j, b). Alive_of j) (flipped dial (nodes s) 0)"
      "printed new = map (\<lambda>(j, b). transition dial b) (flipped dial (nodes s) 0)"
      "flag_loads new = length (nodes s)"
    using sweep_from_char [of dial 0 "nodes s" "trace s"] by blast
  have "sweep dial s =
       s\<lparr>nodes := map (\<lambda>b. b\<lparr>Alive := isAlive dial (URL b)\<rparr>) (nodes s),
         trace := trace s @ new\<rparr>"
    using new(1) by (simp add: sweep_def)
  then show ?thesis using new(2,3,4) by blast
qed

lemma monitor_probes:
  "\<exists>new. trace (monitor dials k n s) = trace s @ new
     \<and> length (nodes (monitor dials k n s)) = length (nodes s)
     \<and> flag_loads new = n * length (nodes s)"
proof (induction n arbitrary: k s)
  case 0
  then show ?case by simp
next
  case (Suc n)
  obtain e1 where e1: "sweep (dials k) s =
       s\<lparr>nodes := map (\<lambda>b. b\<lparr>Alive := isAlive (dials k) (URL b)\<rparr>) (nodes s),
         trace := trace s @ e1\<rparr>"
      "flag_loads e1 = length (nodes s)"
    using sweep_char [of "dials k" s] by blast
  let ?s1 = "sweep (dials k) s"
  have len: "length (nodes ?s1) = length (nodes s)" and tr: "trace ?s1 = trace s @ e1"
    unfolding e1(1) by simp_all
  obtain e2 where e2: "trace (monitor dials (Suc k) n ?s1) = trace ?s1 @ e2"
      "length (nodes (monitor dials (Suc k) n ?s1)) = length (nodes ?s1)"
      "flag_loads e2 = n * length (nodes ?s1)"
    using Suc.IH [of "Suc k" ?s1] by blast
  have "trace (monitor dials k (Suc n) s) = trace s @ (e1 @ e2)"
    using e2(1) tr by simp
  moreover have "length (nodes (monitor dials k (Suc n) s)) = length (nodes s)"
    using e2(2) len by simp
  moreover have "flag_loads (e1 @ e2) = Suc n * length (nodes s)"
    using e1(2) e2(3) len by (simp add: flag_loads_append)
  ultimately show ?case by blast
qed


section \<open>Dispatch when no backend is alive\<close>

text \<open>
  C2. On a pool of \<open>N \<ge> 1\<close> backends none of which is alive, a dispatch call returns the
  502 response after exactly \<open>N\<close> passes through the loop (\<open>N\<close> tickets drawn, \<open>N\<close>
  flags read), selects nothing and leaves the pool as it was; being a value of a total
  function, it does not wait for anything.
\<close>

theorem all_dead_gives_502:
  assumes "nodes s \<noteq> []"
    and "\<forall>b\<in>set (nodes s). \<not> Alive b"
    and "path \<noteq> ''/favicon.ico''"
  shows "handler s path =
     Inr (String_status 502,
          s\<lparr>requestCounter := requestCounter s + of_nat (length (nodes s)),
            trace := trace s @ attempts (length (nodes s)) (requestCounter s)
                                 (length (nodes s))\<rparr>)
     \<and> count_list (attempts (length (nodes s)) (requestCounter s) (length (nodes s)))
          (Mem Atomic AddFetch RequestCounter) = length (nodes s)"
proof -
  have "\<forall>j<length (nodes s).
           \<not> Alive (nodes s ! (unat (requestCounter s + of_nat (Suc j)) mod length (nodes s)))"
    using assms(1,2) by simp
  then show ?thesis
    using handler_all_dead [OF assms(3)] by (simp add: count_attempts)
qed

theorem all_dead_gives_502_witness:
  "nodes \<lparr>nodes = [backend ''a:1'' False, backend ''b:2'' False],
          requestCounter = 7, trace = []\<rparr> \<noteq> []
   \<and> \<not> Alive (backend ''a:1'' False) \<and> \<not> Alive (backend ''b:2'' False)
   \<and> ''/api'' \<noteq> ''/favicon.ico''
   \<and> handler \<lparr>nodes = [backend ''a:1'' False, backend ''b:2'' False],
               requestCounter = 7, trace = []\<rparr> ''/api'' =
       Inr (String_status 502,
            \<lparr>nodes = [backend ''a:1'' False, backend ''b:2'' False],
             requestCounter = 9,
             trace = [Mem Atomic AddFetch RequestCounter, Mem Plain Load (Alive_of 0),
                      Mem Atomic AddFetch RequestCounter, Mem Plain Load (Alive_of 1)]\<rparr>)"
proof -
  let ?s = "\<lparr>nodes = [backend ''a:1'' False, backend ''b:2'' False],
             requestCounter = 7, trace = []\<rparr>"
  have h1: "nodes ?s \<noteq> []" by simp
  have h2: "\<forall>b\<in>set (nodes ?s). \<not> Alive b" by (simp add: backend_def)
  have h3: "''/api'' \<noteq> ''/favicon.ico''" by simp
  have ev: "attempts 2 7 2 =
      [Mem Atomic AddFetch RequestCounter, Mem Plain Load (Alive_of 0),
       Mem Atomic AddFetch RequestCounter, Mem Plain Load (Alive_of 1)]"
    by code_simp
  show ?thesis
    using all_dead_gives_502 [OF h1 h2 h3] h2
    by (simp add: numeral_2_eq_2 [symmetric] ev)
qed

section \<open>Dispatch on an empty pool\<close>

text \<open>
  C10. With no backend in the pool a dispatch call returns the 502 response and the state
  is untouched: the loop body is not entered, so no ticket is drawn (the counter keeps its
  value, the trace gains no event) and the remainder by the pool size, which would panic
  on a zero divisor, is not computed.
\<close>

theorem empty_pool_gives_502:
  assumes "nodes s = []" and "path \<noteq> ''/favicon.ico''"
  shows "handler s path = Inr (String_status 502, s)"
  using assms by (simp add: handler_def select_loop_end)

theorem empty_pool_gives_502_witness:
  "nodes \<lparr>nodes = [], requestCounter = 5, trace = []\<rparr> = []
   \<and> ''/'' \<noteq> ''/favicon.ico''
   \<and> handler \<lparr>nodes = [], requestCounter = 5, trace = []\<rparr> ''/'' =
       Inr (String_status 502, \<lparr>nodes = [], requestCounter = 5, trace = []\<rparr>)"
proof -
  let ?s = "\<lparr>nodes = [], requestCounter = 5, trace = []\<rparr>"
  have h1: "nodes ?s = []" by simp
  have h2: "''/'' \<noteq> ''/favicon.ico''" by simp
  show ?thesis using empty_pool_gives_502 [OF h1 h2] by simp
qed

section \<open>Rotation when every backend is alive\<close>

text \<open>
  C1 (as amended). On a pool of \<open>N \<ge> 1\<close> backends that are all alive, the \<open>j\<close>-th of a
  run of consecutive dispatch calls (counted from 0) draws the ticket
  \<open>counter + (j + 1)\<close>, computed in 64 bits, and forwards to the backend at
  \<open>ticket mod N\<close>; each call advances the counter by one. As long as the counter does not
  pass \<open>2^64\<close> during the run, or when \<open>N\<close> divides \<open>2^64\<close>, the backends are therefore
  visited in strict rotation.
\<close>

theorem round_robin_rotation:
  assumes "nodes s \<noteq> []"
    and "\<forall>b\<in>set (nodes s). Alive b"
    and "\<forall>p\<in>set paths. p \<noteq> ''/favicon.ico''"
  shows "\<exists>s'. serve s paths =
           Inr (map (\<lambda>j. ServeHTTP (unat (requestCounter s + of_nat (Suc j)) mod length (nodes s)))
                    [0..<length paths], s')
         \<and> requestCounter s' = requestCounter s + of_nat (length paths)
         \<and> (unat (requestCounter s) + length paths < 2 ^ 64 \<or> length (nodes s) dvd 2 ^ 64 \<longrightarrow>
              strict_rotation (length (nodes s))
                (map (\<lambda>j. ServeHTTP (unat (requestCounter s + of_nat (Suc j)) mod length (nodes s)))
                    [0..<length paths]))"
proof -
  obtain s' where s': "serve s paths =
           Inr (map (\<lambda>j. ServeHTTP (unat (requestCounter s + of_nat (Suc j)) mod length (nodes s)))
                    [0..<length paths], s')"
      "requestCounter s' = requestCounter s + of_nat (length paths)"
    using serve_all_alive [OF assms] by blast
  have N: "0 < length (nodes s)" using assms(1) by simp
  have rot: "strict_rotation (length (nodes s))
                (map (\<lambda>j. ServeHTTP (unat (requestCounter s + of_nat (Suc j)) mod length (nodes s)))
                    [0..<length paths])"
    if nowrap: "unat (requestCounter s) + length paths < 2 ^ 64 \<or> length (nodes s) dvd 2 ^ 64"
  proof -
    have "unat (requestCounter s + of_nat (Suc j)) mod length (nodes s)
        = (unat (requestCounter s) + Suc j) mod length (nodes s)"
      if "j < length paths" for j
    proof -
      have "unat (requestCounter s) + Suc j < 2 ^ 64 \<or> length (nodes s) dvd 2 ^ 64"
        using that nowrap by auto
      then show ?thesis by (rule ticket_index)
    qed
    then have "ServeHTTP (unat (requestCounter s + of_nat (Suc j)) mod length (nodes s))
        = ServeHTTP ((unat (requestCounter s) + Suc j) mod length (nodes s))"
      if "j \<in> set [0..<length paths]" for j
      using that by (simp del: of_nat_Suc)
    then have meq: "map (\<lambda>j. ServeHTTP (unat (requestCounter s + of_nat (Suc j)) mod length (nodes s)))
                    [0..<length paths]
        = map (\<lambda>j. ServeHTTP ((unat (requestCounter s) + Suc j) mod length (nodes s)))
                    [0..<length paths]"
      by (rule map_cong [OF refl])
    show ?thesis
      unfolding meq by (rule rotation_of_consecutive [OF N])
  qed
  show ?thesis using s' rot by blast
qed

theorem round_robin_rotation_witness:
  "nodes \<lparr>nodes = [backend ''a:1'' True, backend ''b:2'' True, backend ''c:3'' True],
          requestCounter = 0, trace = []\<rparr> \<noteq> []
   \<and> Alive (backend ''a:1'' True) \<and> Alive (backend ''b:2'' True) \<and> Alive (backend ''c:3'' True)
   \<and> ''/a'' \<noteq> ''/favicon.ico''
   \<and> unat (0 :: 64 word) + length [''/a'', ''/a'', ''/a'', ''/a''] < 2 ^ 64
   \<and> map_sum id fst
        (serve \<lparr>nodes = [backend ''a:1'' True, backend ''b:2'' True, backend ''c:3'' True],
                requestCounter = 0, trace = []\<rparr> [''/a'', ''/a'', ''/a'', ''/a''])
       = Inr [ServeHTTP 1, ServeHTTP 2, ServeHTTP 0, ServeHTTP 1]
   \<and> strict_rotation 3 [ServeHTTP 1, ServeHTTP 2, ServeHTTP 0, ServeHTTP 1]"
proof -
  let ?s = "\<lparr>nodes = [backend ''a:1'' True, backend ''b:2'' True, backend ''c:3'' True],
             requestCounter = 0, trace = []\<rparr>"
  let ?paths = "[''/a'', ''/a'', ''/a'', ''/a'']"
  have h1: "nodes ?s \<noteq> []" by simp
  have h2: "\<forall>b\<in>set (nodes ?s). Alive b" by (simp add: backend_def)
  have h3: "\<forall>p\<in>set ?paths. p \<noteq> ''/favicon.ico''" by simp
  have h4: "unat (0 :: 64 word) + length ?paths < 2 ^ 64" by simp
  have ix: "map (\<lambda>j. ServeHTTP (unat ((0 :: 64 word) + of_nat (Suc j)) mod 3)) [0..<4]
      = [ServeHTTP 1, ServeHTTP 2, ServeHTTP 0, ServeHTTP 1]"
    by code_simp
  have len: "length (nodes ?s) = 3" "length ?paths = 4" by simp_all
  obtain s' where
    "serve ?s ?paths =
       Inr (map (\<lambda>j. ServeHTTP (unat (requestCounter ?s + of_nat (Suc j)) mod length (nodes ?s)))
              [0..<length ?paths], s')"
    "unat (requestCounter ?s) + length ?paths < 2 ^ 64 \<or> length (nodes ?s) dvd 2 ^ 64 \<longrightarrow>
       strict_rotation (length (nodes ?s))
         (map (\<lambda>j. ServeHTTP (unat (requestCounter ?s + of_nat (Suc j)) mod length (nodes ?s)))
              [0..<length ?paths])"
    using round_robin_rotation [OF h1 h2 h3] by blast
  then have "serve ?s ?paths = Inr ([ServeHTTP 1, ServeHTTP 2, ServeHTTP 0, ServeHTTP 1], s')"
    and "strict_rotation 3 [ServeHTTP 1, ServeHTTP 2, ServeHTTP 0, ServeHTTP 1]"
    using h4 ix unfolding len by simp_all
  then show ?thesis using h2 h4 by simp
qed

text \<open>
  The rotation is not strict across the wrap of the counter: three live backends, the
  counter at \<open>2^64 - 2\<close>. The tickets are \<open>2^64 - 1\<close> and then \<open>0\<close>, both of remainder 0
  modulo 3, so two consecutive calls forward to the same backend.
\<close>

theorem rotation_breaks_at_counter_wrap:
  "map_sum id fst
     (serve \<lparr>nodes = [backend ''a:1'' True, backend ''b:2'' True, backend ''c:3'' True],
             requestCounter = 18446744073709551614, trace = []\<rparr> [''/a'', ''/a''])
     = Inr [ServeHTTP 0, ServeHTTP 0]
   \<and> \<not> strict_rotation 3 [ServeHTTP 0, ServeHTTP 0]"
  by (simp add: handler_def backend_def strict_rotation_def)

section \<open>Exactly one live backend\<close>




section \<open>One ticket for every attempt\<close>

text \<open>
  C6 (as amended). On a non-empty pool of \<open>N\<close> backends a dispatch call makes \<open>k\<close> passes
  through the loop, \<open>1 \<le> k \<le> N\<close>. Every pass, the first one and each retry alike, draws
  its own ticket by one more atomic increment of the shared counter and reads the flag
  of the backend at that ticket modulo \<open>N\<close>: the events of the call are those of
  \<open>attempts N counter k\<close>, followed by the routing record when a backend was selected,
  the counter has advanced by \<open>k\<close>, and the number of increments is \<open>k\<close>.
\<close>

theorem fresh_ticket_per_attempt:
  assumes "nodes s \<noteq> []" and "path \<noteq> ''/favicon.ico''"
  shows "\<exists>k r out. 1 \<le> k \<and> k \<le> length (nodes s)
      \<and> handler s path =
          Inr (r, s\<lparr>requestCounter := requestCounter s + of_nat k,
                    trace := trace s @ attempts (length (nodes s)) (requestCounter s) k @ out\<rparr>)
      \<and> (out = [] \<or> (\<exists>l. out = [Printf l]))
      \<and> count_list (attempts (length (nodes s)) (requestCounter s) k @ out)
           (Mem Atomic AddFetch RequestCounter) = k"
  using handler_cases [OF assms(2), of s]
proof (elim disjE exE conjE)
  fix k
  let ?out = "[Printf (Routed (requestCounter s + of_nat (Suc k))
                          (Host (URL (nodes s !
                             (unat (requestCounter s + of_nat (Suc k)) mod length (nodes s))))))]"
  assume k: "k < length (nodes s)"
    and h: "handler s path =
              Inr (ServeHTTP (unat (requestCounter s + of_nat (Suc k)) mod length (nodes s)),
                   s\<lparr>requestCounter := requestCounter s + of_nat (Suc k),
                     trace := trace s @ attempts (length (nodes s)) (requestCounter s) (Suc k) @ ?out\<rparr>)"
  have "1 \<le> Suc k \<and> Suc k \<le> length (nodes s)
      \<and> (?out = [] \<or> (\<exists>l. ?out = [Printf l]))
      \<and> count_list (attempts (length (nodes s)) (requestCounter s) (Suc k) @ ?out)
           (Mem Atomic AddFetch RequestCounter) = Suc k"
    using k by (simp add: count_attempts)
  then show ?thesis using h by blast
next
  assume h: "handler s path =
              Inr (String_status 502,
                   s\<lparr>requestCounter := requestCounter s + of_nat (length (nodes s)),
                     trace := trace s @ attempts (length (nodes s)) (requestCounter s)
                                          (length (nodes s))\<rparr>)"
  have "1 \<le> length (nodes s) \<and> length (nodes s) \<le> length (nodes s)
      \<and> ([] = [] \<or> (\<exists>l. ([]::event list) = [Printf l]))
      \<and> count_list (attempts (length (nodes s)) (requestCounter s) (length (nodes s)) @ [])
           (Mem Atomic AddFetch RequestCounter) = length (nodes s)"
    using assms(1) by (simp add: count_attempts Suc_le_eq)
  moreover have "handler s path =
              Inr (String_status 502,
                   s\<lparr>requestCounter := requestCounter s + of_nat (length (nodes s)),
                     trace := trace s @ attempts (length (nodes s)) (requestCounter s)
                                          (length (nodes s)) @ []\<rparr>)"
    using h by simp
  ultimately show ?thesis by blast
qed

theorem fresh_ticket_per_attempt_witness:
  "nodes \<lparr>nodes = [backend ''a:1'' False, backend ''b:2'' True, backend ''c:3'' True],
          requestCounter = 2, trace = []\<rparr> \<noteq> []
   \<and> ''/api'' \<noteq> ''/favicon.ico''
   \<and> handler \<lparr>nodes = [backend ''a:1'' False, backend ''b:2'' True, backend ''c:3'' True],
               requestCounter = 2, trace = []\<rparr> ''/api''
       = Inr (ServeHTTP 1,
              \<lparr>nodes = [backend ''a:1'' False, backend ''b:2'' True, backend ''c:3'' True],
               requestCounter = 4,
               trace = [Mem Atomic AddFetch RequestCounter, Mem Plain Load (Alive_of 0),
                        Mem Atomic AddFetch RequestCounter, Mem Plain Load (Alive_of 1),
                        Printf (Routed 4 ''b:2'')]\<rparr>)"
proof -
  let ?s = "\<lparr>nodes = [backend ''a:1'' False, backend ''b:2'' True, backend ''c:3'' True],
             requestCounter = 2, trace = []\<rparr>"
  have h1: "nodes ?s \<noteq> []" by simp
  have h2: "''/api'' \<noteq> ''/favicon.ico''" by simp
  show ?thesis
    using fresh_ticket_per_attempt [OF h1 h2] by (simp add: handler_def backend_def)
qed

text \<open>
  On an empty pool a dispatch call draws no ticket at all: the counter keeps its value and
  no increment is recorded.
\<close>

theorem empty_pool_draws_no_ticket:
  "handler \<lparr>nodes = [], requestCounter = 5, trace = []\<rparr> ''/api''
     = Inr (String_status 502, \<lparr>nodes = [], requestCounter = 5, trace = []\<rparr>)
   \<and> count_list (trace \<lparr>nodes = [], requestCounter = 5, trace = []\<rparr>)
        (Mem Atomic AddFetch RequestCounter) = 0"
  by (simp add: handler_def)

section \<open>What a dispatch call leaves alone\<close>

text \<open>
  C9. Every call of the handler returns with the list of backends exactly as it found it
  (flags, URLs and proxies), and none of the events it adds is a write to an \<open>Alive\<close>
  flag: it only draws tickets from the counter, reads flags and prints.
\<close>

theorem handler_frame:
  "\<exists>r s' new. handler s path = Inr (r, s') \<and> nodes s' = nodes s
      \<and> trace s' = trace s @ new \<and> list_all (\<lambda>e. \<not> modifies_backend e) new"
proof (cases "path = ''/favicon.ico''")
  case True
  then have "handler s path = Inr (AbortWithStatus 204, s)" by (simp add: handler_def)
  then have "handler s path = Inr (AbortWithStatus 204, s) \<and> nodes s = nodes s
      \<and> trace s = trace s @ [] \<and> list_all (\<lambda>e. \<not> modifies_backend e) []" by simp
  then show ?thesis by blast
next
  case False
  from handler_cases [OF False, of s] show ?thesis
  proof (elim disjE exE conjE)
    fix k
    let ?out = "attempts (length (nodes s)) (requestCounter s) (Suc k) @
                       [Printf (Routed (requestCounter s + of_nat (Suc k))
                          (Host (URL (nodes s !
                             (unat (requestCounter s + of_nat (Suc k)) mod length (nodes s))))))]"
    let ?s' = "s\<lparr>requestCounter := requestCounter s + of_nat (Suc k),
                     trace := trace s @ ?out\<rparr>"
    assume h: "handler s path =
              Inr (ServeHTTP (unat (requestCounter s + of_nat (Suc k)) mod length (nodes s)), ?s')"
    have "nodes ?s' = nodes s \<and> trace ?s' = trace s @ ?out
        \<and> list_all (\<lambda>e. \<not> modifies_backend e) ?out"
      using attempts_modify_nothing [of "length (nodes s)" "requestCounter s" "Suc k"] by simp
    then show ?thesis using h by blast
  next
    let ?out = "attempts (length (nodes s)) (requestCounter s) (length (nodes s))"
    let ?s' = "s\<lparr>requestCounter := requestCounter s + of_nat (length (nodes s)),
                     trace := trace s @ ?out\<rparr>"
    assume h: "handler s path = Inr (String_status 502, ?s')"
    have "nodes ?s' = nodes s \<and> trace ?s' = trace s @ ?out
        \<and> list_all (\<lambda>e. \<not> modifies_backend e) ?out"
      using attempts_modify_nothing [of "length (nodes s)" "requestCounter s" "length (nodes s)"] by simp
    then show ?thesis using h by blast
  qed
qed

theorem handler_frame_witness:
  "handler \<lparr>nodes = [backend ''a:1'' False, backend ''b:2'' True], requestCounter = 1,
            trace = []\<rparr> ''/api''
     = Inr (ServeHTTP 1,
            \<lparr>nodes = [backend ''a:1'' False, backend ''b:2'' True], requestCounter = 3,
             trace = [Mem Atomic AddFetch RequestCounter, Mem Plain Load (Alive_of 0),
                      Mem Atomic AddFetch RequestCounter, Mem Plain Load (Alive_of 1),
                      Printf (Routed 3 ''b:2'')]\<rparr>)
   \<and> list_all (\<lambda>e. \<not> modifies_backend e)
        [Mem Atomic AddFetch RequestCounter, Mem Plain Load (Alive_of 0),
         Mem Atomic AddFetch RequestCounter, Mem Plain Load (Alive_of 1),
         Printf (Routed 3 ''b:2'')]"
proof -
  let ?s = "\<lparr>nodes = [backend ''a:1'' False, backend ''b:2'' True], requestCounter = 1,
             trace = []\<rparr>"
  have ev: "handler ?s ''/api''
     = Inr (ServeHTTP 1,
            \<lparr>nodes = [backend ''a:1'' False, backend ''b:2'' True], requestCounter = 3,
             trace = [Mem Atomic AddFetch RequestCounter, Mem Plain Load (Alive_of 0),
                      Mem Atomic AddFetch RequestCounter, Mem Plain Load (Alive_of 1),
                      Printf (Routed 3 ''b:2'')]\<rparr>)"
    by code_simp
  have la: "list_all (\<lambda>e. \<not> modifies_backend e)
        [Mem Atomic AddFetch RequestCounter, Mem Plain Load (Alive_of 0),
         Mem Atomic AddFetch RequestCounter, Mem Plain Load (Alive_of 1),
         Printf (Routed 3 ''b:2'')]"
    by simp
  show ?thesis
    using handler_frame [of ?s "''/api''"] by (simp only: ev la simp_thms)
qed

section \<open>The health-check pass\<close>

text \<open>
  C3. One pass of the health check sets every backend's flag to the result of its probe.
  The stores it performs are, in order, the stores to the flags of exactly the backends
  whose probe result differs from the stored flag (so the flag of backend \<open>i\<close> is written
  if and only if its observation differs), and the lines it prints are, in the same
  order, the transition records of exactly those backends, each naming the host of its
  target and the direction. A backend observed as it is stored contributes neither.
\<close>

theorem sweep_records_transitions:
  "\<exists>new. sweep dial s =
       s\<lparr>nodes := map (\<lambda>b. b\<lparr>Alive := isAlive dial (URL b)\<rparr>) (nodes s),
         trace := trace s @ new\<rparr>
     \<and> stores new = map (\<lambda>(j, b). Alive_of j) (flipped dial (nodes s) 0)
     \<and> printed new = map (\<lambda>(j, b). transition dial b) (flipped dial (nodes s) 0)
     \<and> (\<forall>i<length (nodes s).
           (Alive_of i \<in> set (stores new))
             = (isAlive dial (URL (nodes s ! i)) \<noteq> Alive (nodes s ! i)))"
proof -
  obtain new where new: "sweep dial s =
       s\<lparr>nodes := map (\<lambda>b. b\<lparr>Alive := isAlive dial (URL b)\<rparr>) (nodes s),
         trace := trace s @ new\<rparr>"
      "stores new = map (\<lambda>(j, b). Alive_of j) (flipped dial (nodes s) 0)"
      "printed new = map (\<lambda>(j, b). transition dial b) (flipped dial (nodes s) 0)"
    using sweep_char [of dial s] by blast
  have "(Alive_of i \<in> set (stores new))
      = (isAlive dial (URL (nodes s ! i)) \<noteq> Alive (nodes s ! i))"
    if "i < length (nodes s)" for i
    unfolding new(2) using that
    by (auto simp: flipped_def in_set_enumerate_eq image_iff)
  then show ?thesis using new by blast
qed

theorem sweep_records_transitions_witness:
  "sweep (\<lambda>network address timeout.
            if address = ''a:1'' then Inl ''connection refused'' else Inr (Conn 1))
     \<lparr>nodes = [backend ''a:1'' True, backend ''b:2'' False, backend ''c:3'' True],
      requestCounter = 4, trace = []\<rparr>
   = \<lparr>nodes = [backend ''a:1'' False, backend ''b:2'' True, backend ''c:3'' True],
      requestCounter = 4,
      trace = [Mem Plain Load (Alive_of 0), Mem Plain Store (Alive_of 0), Printf (Died ''a:1''),
               Mem Plain Load (Alive_of 1), Mem Plain Store (Alive_of 1),
               Printf (Revived ''b:2''),
               Mem Plain Load (Alive_of 2)]\<rparr>
   \<and> stores [Mem Plain Load (Alive_of 0), Mem Plain Store (Alive_of 0), Printf (Died ''a:1''),
              Mem Plain Load (Alive_of 1), Mem Plain Store (Alive_of 1),
              Printf (Revived ''b:2''),
              Mem Plain Load (Alive_of 2)] = [Alive_of 0, Alive_of 1]
   \<and> printed [Mem Plain Load (Alive_of 0), Mem Plain Store (Alive_of 0), Printf (Died ''a:1''),
               Mem Plain Load (Alive_of 1), Mem Plain Store (Alive_of 1),
               Printf (Revived ''b:2''),
               Mem Plain Load (Alive_of 2)] = [Died ''a:1'', Revived ''b:2'']"
  using sweep_records_transitions
    [of "\<lambda>network address timeout.
            if address = ''a:1'' then Inl ''connection refused'' else Inr (Conn 1)"
        "\<lparr>nodes = [backend ''a:1'' True, backend ''b:2'' False, backend ''c:3'' True],
          requestCounter = 4, trace = []\<rparr>"]
  by (simp add: sweep_def check_node_def isAlive_def backend_def)

section \<open>The probe\<close>

text \<open>
  C7. \<open>isAlive\<close> returns a boolean for every dialer and every target: true exactly when
  the dial (TCP, the target's host, a timeout of two seconds) yields a connection, false
  on every error. No error leaves the probe, and none stops the loop around it: whatever
  the dialers answer, \<open>n\<close> passes of the monitor read the flag of every backend \<open>n\<close>
  times.
\<close>

theorem isAlive_classifies:
  "(isAlive dial u \<longleftrightarrow> (\<exists>conn. dial ''tcp'' (Host u) (2 * Second) = Inr conn))
   \<and> (\<forall>err. dial ''tcp'' (Host u) (2 * Second) = Inl err \<longrightarrow> \<not> isAlive dial u)
   \<and> (\<exists>new. trace (monitor dials k n s) = trace s @ new
         \<and> flag_loads new = n * length (nodes s))"
proof -
  have "isAlive dial u \<longleftrightarrow> (\<exists>conn. dial ''tcp'' (Host u) (2 * Second) = Inr conn)"
    by (cases "dial ''tcp'' (Host u) (2 * Second)") (simp_all add: isAlive_def)
  moreover have "\<forall>err. dial ''tcp'' (Host u) (2 * Second) = Inl err \<longrightarrow> \<not> isAlive dial u"
    by (simp add: isAlive_def)
  moreover have "\<exists>new. trace (monitor dials k n s) = trace s @ new
         \<and> flag_loads new = n * length (nodes s)"
    using monitor_probes [of dials k n s] by blast
  ultimately show ?thesis by blast
qed

theorem isAlive_classifies_witness:
  "(\<lambda>network address timeout.
       if address = ''a:1'' then Inl ''i/o timeout'' else Inr (Conn 1))
     ''tcp'' (Host \<lparr>Scheme = ''http'', Host = ''a:1''\<rparr>) (2 * Second) = Inl ''i/o timeout''
   \<and> \<not> isAlive (\<lambda>network address timeout.
                  if address = ''a:1'' then Inl ''i/o timeout'' else Inr (Conn 1))
            \<lparr>Scheme = ''http'', Host = ''a:1''\<rparr>
   \<and> flag_loads
        (trace (monitor (\<lambda>k network address timeout.
                           if address = ''a:1'' then Inl ''i/o timeout'' else Inr (Conn 1))
                  0 2
                  \<lparr>nodes = [backend ''a:1'' True, backend ''b:2'' True],
                   requestCounter = 0, trace = []\<rparr>)) = 4"
proof -
  let ?dial = "\<lambda>network address timeout.
       if address = ''a:1'' then Inl ''i/o timeout'' else Inr (Conn (1::nat))"
  let ?u = "\<lparr>Scheme = ''http'', Host = ''a:1''\<rparr>"
  let ?s = "\<lparr>nodes = [backend ''a:1'' True, backend ''b:2'' True],
             requestCounter = 0, trace = []\<rparr>"
  have h: "?dial ''tcp'' (Host ?u) (2 * Second) = Inl ''i/o timeout''" by simp
  have c: "(\<forall>err. ?dial ''tcp'' (Host ?u) (2 * Second) = Inl err \<longrightarrow> \<not> isAlive ?dial ?u)"
    and m: "\<exists>new. trace (monitor (\<lambda>k. ?dial) 0 2 ?s) = trace ?s @ new
         \<and> flag_loads new = 2 * length (nodes ?s)"
    using isAlive_classifies [of ?dial ?u "\<lambda>k. ?dial" 0 2 ?s] by blast+
  have "\<not> isAlive ?dial ?u" using c h by blast
  moreover have "flag_loads (trace (monitor (\<lambda>k. ?dial) 0 2 ?s)) = 4"
    using m by auto
  ultimately show ?thesis using h by blast
qed

section \<open>Starting with a pool that may be empty\<close>




section \<open>How the alive flag is accessed\<close>

text \<open>
  C8 (the code departs from the claim). One backend, alive; a pass of the health check
  whose probe is refused, and a dispatch call. The pass stores to the flag of backend 0
  and the dispatch call reads it, both as plain memory accesses, where the counter is
  touched by an atomic add only: a store and a load of the same location that are not both
  atomic.
\<close>

theorem alive_flag_plain_access:
  "trace (sweep (\<lambda>network address timeout. Inl ''connection refused'')
            \<lparr>nodes = [backend ''a:1'' True], requestCounter = 0, trace = []\<rparr>)
     = [Mem Plain Load (Alive_of 0), Mem Plain Store (Alive_of 0), Printf (Died ''a:1'')]
   \<and> handler \<lparr>nodes = [backend ''a:1'' True], requestCounter = 0, trace = []\<rparr> ''/api''
     = Inr (ServeHTTP 0,
            \<lparr>nodes = [backend ''a:1'' True], requestCounter = 1,
             trace = [Mem Atomic AddFetch RequestCounter, Mem Plain Load (Alive_of 0),
                      Printf (Routed 1 ''a:1'')]\<rparr>)
   \<and> racing (Mem Plain Store (Alive_of 0)) (Mem Plain Load (Alive_of 0))"
  by (simp add: sweep_def check_node_def isAlive_def handler_def backend_def)

end
